theory Spec2Isabelle
  imports Main "HOL-Library.Product_Lexorder"
begin

section \<open>The knowledge base of the Minesweeper player (minesweeper.py)\<close>

text \<open>
  A cell is a pair (row, column) of Python integers. A \<open>Sentence\<close> holds a set of cells
  and an integer count; the player \<open>MinesweeperAI\<close> holds the board size, three sets of
  cells and the list of its sentences. Python mutates these objects in place; here every
  operation takes the object and returns the updated one. No two slots of the list
  \<open>knowledge\<close> ever hold the same object (each sentence is built by its own call of the
  constructor, which copies the set it is given), so a list of values models the list of
  objects. Printing is left out.
\<close>

type_synonym cell = "int \<times> int"

record sentence =
  cells :: "cell set"
  count :: int

record ai =
  height :: int
  width :: int
  moves_made :: "cell set"
  mines :: "cell set"
  safes :: "cell set"
  knowledge :: "sentence list"

text \<open>\<open>MinesweeperAI.__init__\<close>.\<close>

definition init :: "int \<Rightarrow> int \<Rightarrow> ai" where
  "init h w = \<lparr>height = h, width = w, moves_made = {}, mines = {}, safes = {}, knowledge = []\<rparr>"

subsection \<open>Sentence\<close>

text \<open>\<open>Sentence.known_mines\<close>: \<open>len(self.cells) == self.count\<close>.\<close>

definition known_mines :: "sentence \<Rightarrow> cell set" where
  "known_mines s = (if int (card (cells s)) = count s then cells s else {})"

text \<open>\<open>Sentence.known_safes\<close>: \<open>self.count == 0\<close>.\<close>

definition known_safes :: "sentence \<Rightarrow> cell set" where
  "known_safes s = (if count s = 0 then cells s else {})"

text \<open>\<open>Sentence.mark_mine\<close> and \<open>Sentence.mark_safe\<close>.\<close>

definition sentence_mark_mine :: "cell \<Rightarrow> sentence \<Rightarrow> sentence" where
  "sentence_mark_mine c s =
     (if c \<in> cells s then s\<lparr>cells := cells s - {c}, count := count s - 1\<rparr> else s)"

definition sentence_mark_safe :: "cell \<Rightarrow> sentence \<Rightarrow> sentence" where
  "sentence_mark_safe c s =
     (if c \<in> cells s then s\<lparr>cells := cells s - {c}\<rparr> else s)"

subsection \<open>MinesweeperAI.mark_mine and MinesweeperAI.mark_safe\<close>

text \<open>
  Both methods run \<open>for sentence in self.knowledge\<close> and call
  \<open>self.knowledge.remove(sentence)\<close> inside the loop. A Python list iterator keeps an
  index: each round it stops if the index has reached the current length of the list,
  otherwise it yields the element at the index and increments the index. \<open>list.remove\<close>
  deletes the first element equal (by \<open>Sentence.__eq__\<close>: same cells, same count) to its
  argument. \<open>mark_body\<close> is one round of the loop body at index \<open>i\<close>, \<open>mark_loop\<close> the
  loop.
\<close>

definition mark_body :: "(sentence \<Rightarrow> sentence) \<Rightarrow> nat \<times> sentence list \<Rightarrow> nat \<times> sentence list" where
  "mark_body f c =
     (let i = fst c; ks = snd c; s' = f (ks ! i); ks' = ks[i := s']
      in if card (cells s') = 0 then (Suc i, remove1 s' ks') else (Suc i, ks'))"

function mark_loop :: "(sentence \<Rightarrow> sentence) \<Rightarrow> nat \<Rightarrow> sentence list \<Rightarrow> sentence list" where
  "mark_loop f i ks =
     (if i < length ks
      then mark_loop f (fst (mark_body f (i, ks))) (snd (mark_body f (i, ks)))
      else ks)"
  by pat_completeness auto
termination
proof (relation "measure (\<lambda>(f, i, ks). length ks - i)")
  show "wf (measure (\<lambda>(f, i, ks). length ks - i))" by simp
next
  fix f :: "sentence \<Rightarrow> sentence" and i :: nat and ks :: "sentence list"
  assume "i < length ks"
  then show "((f, fst (mark_body f (i, ks)), snd (mark_body f (i, ks))), (f, i, ks))
               \<in> measure (\<lambda>(f, i, ks). length ks - i)"
    by (auto simp: mark_body_def Let_def length_remove1)
qed

declare mark_loop.simps [simp del]

definition mark_mine :: "cell \<Rightarrow> ai \<Rightarrow> ai" where
  "mark_mine c a =
     a\<lparr>mines := insert c (mines a),
       knowledge := mark_loop (sentence_mark_mine c) 0 (knowledge a)\<rparr>"

definition mark_safe :: "cell \<Rightarrow> ai \<Rightarrow> ai" where
  "mark_safe c a =
     a\<lparr>safes := insert c (safes a),
       knowledge := mark_loop (sentence_mark_safe c) 0 (knowledge a)\<rparr>"

subsection \<open>Iterating over a Python set\<close>

text \<open>
  \<open>add_knowledge\<close> runs \<open>for x in S\<close> over sets of cells. The order in which a Python
  set yields its elements is not fixed by the program, so it is a parameter of the model:
  \<open>enum S\<close> is the list of the elements of \<open>S\<close> in the order of iteration. An
  admissible \<open>enum\<close> yields every element of a finite set exactly once. The general
  properties below hold for every admissible order. The concrete runs take the
  lexicographic order \<open>sorted_list_of_set\<close>; their results do not depend on this choice,
  since wherever one of them iterates over two or more cells, the marks empty no
  sentence, so that no sentence is removed or skipped and the marks commute.
\<close>

definition set_order :: "(cell set \<Rightarrow> cell list) \<Rightarrow> bool" where
  "set_order enum = (\<forall>S. finite S \<longrightarrow> set (enum S) = S \<and> distinct (enum S))"

definition mark_mines :: "cell list \<Rightarrow> ai \<Rightarrow> ai" where
  "mark_mines cs a = foldl (\<lambda>a c. mark_mine c a) a cs"

definition mark_safes :: "cell list \<Rightarrow> ai \<Rightarrow> ai" where
  "mark_safes cs a = foldl (\<lambda>a c. mark_safe c a) a cs"

subsection \<open>MinesweeperAI.add_knowledge\<close>

text \<open>
  Step 3, lines 215 to 230: the two nested \<open>range\<close> loops visit the 3 by 3 window around
  the cell, row by row. \<open>scan_cell\<close> is the loop body on the pair (count, neighbor_cells).
\<close>

definition window :: "cell \<Rightarrow> cell list" where
  "window c = concat (map (\<lambda>i. map (\<lambda>j. (i, j)) [snd c - 1 .. snd c + 1]) [fst c - 1 .. fst c + 1])"

definition in_bounds :: "ai \<Rightarrow> cell \<Rightarrow> bool" where
  "in_bounds a n = (0 \<le> fst n \<and> fst n < height a \<and> 0 \<le> snd n \<and> snd n < width a)"

definition scan_cell :: "ai \<Rightarrow> cell \<Rightarrow> int \<times> cell set \<Rightarrow> cell \<Rightarrow> int \<times> cell set" where
  "scan_cell a c acc n =
     (if n = c then acc
      else if in_bounds a n then
        (if n \<in> safes a then acc
         else if n \<in> mines a then (fst acc - 1, snd acc)
         else (fst acc, insert n (snd acc)))
      else acc)"

definition scan_neighbors :: "ai \<Rightarrow> cell \<Rightarrow> int \<Rightarrow> int \<times> cell set" where
  "scan_neighbors a c cnt = foldl (scan_cell a c) (cnt, {}) (window c)"

text \<open>Step 3, lines 231 to 239: mark all neighbours, or append the new sentence.\<close>

definition absorb :: "(cell set \<Rightarrow> cell list) \<Rightarrow> cell \<Rightarrow> int \<Rightarrow> ai \<Rightarrow> ai" where
  "absorb enum c cnt a =
     (let r = scan_neighbors a c cnt; cnt' = fst r; neighbor_cells = snd r
      in if int (card neighbor_cells) = cnt' then mark_mines (enum neighbor_cells) a
         else if cnt' = 0 \<and> card neighbor_cells > 0 then mark_safes (enum neighbor_cells) a
         else a\<lparr>knowledge := knowledge a @ [\<lparr>cells = neighbor_cells, count = cnt'\<rparr>]\<rparr>)"

text \<open>Step 4, lines 243 to 252.\<close>

definition discovered_mines :: "sentence list \<Rightarrow> cell set" where
  "discovered_mines ks = foldl (\<lambda>acc s. acc \<union> known_mines s) {} ks"

definition discovered_safes :: "sentence list \<Rightarrow> cell set" where
  "discovered_safes ks = foldl (\<lambda>acc s. acc \<union> known_safes s) {} ks"

definition direct :: "(cell set \<Rightarrow> cell list) \<Rightarrow> ai \<Rightarrow> ai" where
  "direct enum a =
     (let dm = discovered_mines (knowledge a); ds = discovered_safes (knowledge a)
      in mark_safes (enum ds) (mark_mines (enum dm) a))"

text \<open>
  Step 5, lines 256 to 278: the three lists filled by the two nested loops over
  \<open>self.knowledge\<close> (which the loops do not change), and \<open>resolve_pair\<close>, the body of the
  inner loop.
\<close>

record resolution =
  new_knowledge :: "sentence list"
  cells_to_mark_as_safe :: "cell list"
  cells_to_mark_as_mines :: "cell list"

definition resolve_pair ::
  "(cell set \<Rightarrow> cell list) \<Rightarrow> sentence \<Rightarrow> resolution \<Rightarrow> sentence \<Rightarrow> resolution" where
  "resolve_pair enum sentenceA r sentenceB =
     (if sentenceA = sentenceB then r
      else if cells sentenceA \<subseteq> cells sentenceB then
        (let new_sentence = \<lparr>cells = cells sentenceB - cells sentenceA,
                              count = count sentenceB - count sentenceA\<rparr>
         in if count new_sentence = 0
            then r\<lparr>cells_to_mark_as_safe := cells_to_mark_as_safe r @ enum (cells new_sentence)\<rparr>
            else if count new_sentence = int (card (cells new_sentence))
            then r\<lparr>cells_to_mark_as_mines := cells_to_mark_as_mines r @ enum (cells new_sentence)\<rparr>
            else r\<lparr>new_knowledge := new_knowledge r @ [new_sentence]\<rparr>)
      else r)"

definition resolve :: "(cell set \<Rightarrow> cell list) \<Rightarrow> sentence list \<Rightarrow> resolution" where
  "resolve enum ks =
     foldl (\<lambda>r sentenceA. foldl (resolve_pair enum sentenceA) r ks)
       \<lparr>new_knowledge = [], cells_to_mark_as_safe = [], cells_to_mark_as_mines = []\<rparr> ks"

text \<open>Step 5, lines 280 to 284.\<close>

definition subset_resolution :: "(cell set \<Rightarrow> cell list) \<Rightarrow> ai \<Rightarrow> ai" where
  "subset_resolution enum a =
     (let r = resolve enum (knowledge a);
          a' = a\<lparr>knowledge := knowledge a @ new_knowledge r\<rparr>
      in mark_safes (cells_to_mark_as_safe r) (mark_mines (cells_to_mark_as_mines r) a'))"

text \<open>The state after step 3, and the whole method.\<close>

definition observed :: "(cell set \<Rightarrow> cell list) \<Rightarrow> cell \<Rightarrow> int \<Rightarrow> ai \<Rightarrow> ai" where
  "observed enum c cnt a = absorb enum c cnt (mark_safe c (a\<lparr>moves_made := insert c (moves_made a)\<rparr>))"

definition add_knowledge :: "(cell set \<Rightarrow> cell list) \<Rightarrow> cell \<Rightarrow> int \<Rightarrow> ai \<Rightarrow> ai" where
  "add_knowledge enum c cnt a = subset_resolution enum (direct enum (observed enum c cnt a))"

text \<open>A run of the player: the observations are applied from left to right.\<close>

definition run :: "(cell set \<Rightarrow> cell list) \<Rightarrow> (cell \<times> int) list \<Rightarrow> ai \<Rightarrow> ai" where
  "run enum obs a = foldl (\<lambda>a ob. add_knowledge enum (fst ob) (snd ob) a) a obs"

subsection \<open>Minesweeper.nearby_mines\<close>

text \<open>
  The game answers a probe of a cell with \<open>nearby_mines\<close> (lines 54 to 77). The board of
  the game is the set of the cells whose entry of \<open>self.board\<close> is true; the loops
  are the ones of step 3 above.
\<close>

definition nearby_mines :: "int \<Rightarrow> int \<Rightarrow> cell set \<Rightarrow> cell \<Rightarrow> int" where
  "nearby_mines h w board c =
     foldl (\<lambda>cnt n. if n = c then cnt
                      else if 0 \<le> fst n \<and> fst n < h \<and> 0 \<le> snd n \<and> snd n < w
                           then (if n \<in> board then cnt + 1 else cnt)
                           else cnt)
       0 (window c)"

subsection \<open>The vocabulary of the specification\<close>

text \<open>
  The neighbours of a cell are the cells of the window other than the cell itself that lie
  on the board of the player. A neighbour is unclassified when it is neither in \<open>safes\<close>
  nor in \<open>mines\<close>. The neighbours for which step 3 decrements the count are the ones in
  \<open>mines\<close> that the test on \<open>safes\<close> (made first) has let through.
\<close>

definition neighbours :: "ai \<Rightarrow> cell \<Rightarrow> cell set" where
  "neighbours a c = {n \<in> set (window c). n \<noteq> c \<and> in_bounds a n}"

definition unclassified :: "ai \<Rightarrow> cell \<Rightarrow> cell set" where
  "unclassified a c = {n \<in> neighbours a c. n \<notin> safes a \<and> n \<notin> mines a}"

definition counted_mines :: "ai \<Rightarrow> cell \<Rightarrow> cell set" where
  "counted_mines a c = {n \<in> neighbours a c. n \<notin> safes a \<and> n \<in> mines a}"

text \<open>
  Subset resolution takes an ordered pair of sentences that are not equal, the cells of
  the first among the cells of the second, and derives the candidate sentence. A
  candidate is all safe when its count is 0 and all mine when its count is the number of
  its cells.
\<close>

definition candidate :: "sentence \<Rightarrow> sentence \<Rightarrow> sentence" where
  "candidate A B = \<lparr>cells = cells B - cells A, count = count B - count A\<rparr>"

definition resolvable :: "sentence \<Rightarrow> sentence \<Rightarrow> bool" where
  "resolvable A B = (A \<noteq> B \<and> cells A \<subseteq> cells B)"

definition all_safe :: "sentence \<Rightarrow> bool" where
  "all_safe s = (count s = 0)"

definition all_mine :: "sentence \<Rightarrow> bool" where
  "all_mine s = (count s = int (card (cells s)))"

text \<open>
  A sentence holds on a board (the set of the cells with a mine) when it has finitely
  many cells and its count is the number of its cells with a mine. A state of the player
  is sound for a board when its mines are mines of the board, its safe cells are not, and
  its sentences hold.
\<close>

definition finite_cells :: "sentence list \<Rightarrow> bool" where
  "finite_cells ks = (\<forall>s \<in> set ks. finite (cells s))"

definition holds_on :: "cell set \<Rightarrow> sentence \<Rightarrow> bool" where
  "holds_on board s = (finite (cells s) \<and> int (card (cells s \<inter> board)) = count s)"

definition sound :: "cell set \<Rightarrow> ai \<Rightarrow> bool" where
  "sound board a =
     (mines a \<subseteq> board \<and> safes a \<inter> board = {} \<and> (\<forall>s \<in> set (knowledge a). holds_on board s))"

text \<open>
  The counts of a list of observations are truthful for a board when every observed cell
  comes with the count the game computes for it.
\<close>

definition truthful :: "int \<Rightarrow> int \<Rightarrow> cell set \<Rightarrow> (cell \<times> int) list \<Rightarrow> bool" where
  "truthful h w board obs = (\<forall>ob \<in> set obs. snd ob = nearby_mines h w board (fst ob))"

section \<open>Properties\<close>

subsection \<open>What each step does to the sets of the player\<close>

lemma mark_mine_fields [simp]:
  "mines (mark_mine c a) = insert c (mines a)"
  "safes (mark_mine c a) = safes a"
  "moves_made (mark_mine c a) = moves_made a"
  "height (mark_mine c a) = height a"
  "width (mark_mine c a) = width a"
  by (simp_all add: mark_mine_def)

lemma mark_mine_knowledge:
  "knowledge (mark_mine c a) = mark_loop (sentence_mark_mine c) 0 (knowledge a)"
  by (simp add: mark_mine_def)

lemma mark_safe_fields [simp]:
  "mines (mark_safe c a) = mines a"
  "safes (mark_safe c a) = insert c (safes a)"
  "moves_made (mark_safe c a) = moves_made a"
  "height (mark_safe c a) = height a"
  "width (mark_safe c a) = width a"
  by (simp_all add: mark_safe_def)

lemma mark_safe_knowledge:
  "knowledge (mark_safe c a) = mark_loop (sentence_mark_safe c) 0 (knowledge a)"
  by (simp add: mark_safe_def)

lemma mark_mines_fields [simp]:
  "mines (mark_mines cs a) = mines a \<union> set cs"
  "safes (mark_mines cs a) = safes a"
  "moves_made (mark_mines cs a) = moves_made a"
  "height (mark_mines cs a) = height a"
  "width (mark_mines cs a) = width a"
  unfolding mark_mines_def by (induction cs arbitrary: a) auto

lemma mark_safes_fields [simp]:
  "mines (mark_safes cs a) = mines a"
  "safes (mark_safes cs a) = safes a \<union> set cs"
  "moves_made (mark_safes cs a) = moves_made a"
  "height (mark_safes cs a) = height a"
  "width (mark_safes cs a) = width a"
  unfolding mark_safes_def by (induction cs arbitrary: a) auto

lemma absorb_fields [simp]:
  "moves_made (absorb enum c cnt a) = moves_made a"
  "height (absorb enum c cnt a) = height a"
  "width (absorb enum c cnt a) = width a"
  by (simp_all add: absorb_def Let_def)

lemma absorb_mines_mono: "x \<in> mines a \<Longrightarrow> x \<in> mines (absorb enum c cnt a)"
  by (simp add: absorb_def Let_def)

lemma absorb_safes_mono: "x \<in> safes a \<Longrightarrow> x \<in> safes (absorb enum c cnt a)"
  by (simp add: absorb_def Let_def)

lemma direct_fields [simp]:
  "mines (direct enum a) = mines a \<union> set (enum (discovered_mines (knowledge a)))"
  "safes (direct enum a) = safes a \<union> set (enum (discovered_safes (knowledge a)))"
  "moves_made (direct enum a) = moves_made a"
  "height (direct enum a) = height a"
  "width (direct enum a) = width a"
  by (simp_all add: direct_def Let_def)

lemma subset_resolution_fields [simp]:
  "mines (subset_resolution enum a) = mines a \<union> set (cells_to_mark_as_mines (resolve enum (knowledge a)))"
  "safes (subset_resolution enum a) = safes a \<union> set (cells_to_mark_as_safe (resolve enum (knowledge a)))"
  "moves_made (subset_resolution enum a) = moves_made a"
  "height (subset_resolution enum a) = height a"
  "width (subset_resolution enum a) = width a"
  by (simp_all add: subset_resolution_def Let_def)

lemma observed_fields [simp]:
  "moves_made (observed enum c cnt a) = insert c (moves_made a)"
  "height (observed enum c cnt a) = height a"
  "width (observed enum c cnt a) = width a"
  by (simp_all add: observed_def)

lemma observed_mines_mono: "x \<in> mines a \<Longrightarrow> x \<in> mines (observed enum c cnt a)"
  by (simp add: observed_def absorb_mines_mono)

lemma observed_safes_mono: "x \<in> safes a \<Longrightarrow> x \<in> safes (observed enum c cnt a)"
  by (simp add: observed_def absorb_safes_mono)

lemma observed_cell_safe: "c \<in> safes (observed enum c cnt a)"
  by (simp add: observed_def absorb_safes_mono)

lemma add_knowledge_fields [simp]:
  "moves_made (add_knowledge enum c cnt a) = insert c (moves_made a)"
  "height (add_knowledge enum c cnt a) = height a"
  "width (add_knowledge enum c cnt a) = width a"
  by (simp_all add: add_knowledge_def)

lemma add_knowledge_mines_mono: "x \<in> mines a \<Longrightarrow> x \<in> mines (add_knowledge enum c cnt a)"
  by (simp add: add_knowledge_def observed_mines_mono)

lemma add_knowledge_safes_mono: "x \<in> safes a \<Longrightarrow> x \<in> safes (add_knowledge enum c cnt a)"
  by (simp add: add_knowledge_def observed_safes_mono)

lemma add_knowledge_cell_safe: "c \<in> safes (add_knowledge enum c cnt a)"
  by (simp add: add_knowledge_def observed_cell_safe)

subsection \<open>Sentence.mark_mine\<close>

text \<open>
  Claim C10. \<open>Sentence.mark_mine\<close> validates nothing and signals no error: when the cell
  is in the sentence, the cell is removed and the count goes down by exactly 1, whatever
  the count was; from count 0 it returns normally with count -1.
\<close>

theorem sentence_mark_mine_unchecked:
  "c \<in> cells s \<Longrightarrow>
     sentence_mark_mine c s = \<lparr>cells = cells s - {c}, count = count s - 1\<rparr> \<and>
     (count s = 0 \<longrightarrow> count (sentence_mark_mine c s) = - 1)"
  by (simp add: sentence_mark_mine_def)

theorem sentence_mark_mine_unchecked_witness:
  "(0, 0) \<in> cells \<lparr>cells = {(0, 0), (0, 1)}, count = 0\<rparr> \<and>
   sentence_mark_mine (0, 0) \<lparr>cells = {(0, 0), (0, 1)}, count = 0\<rparr>
     = \<lparr>cells = {(0, 1)}, count = - 1\<rparr>"
  using sentence_mark_mine_unchecked [of "(0, 0)" "\<lparr>cells = {(0, 0), (0, 1)}, count = 0\<rparr>"]
  by auto

subsection \<open>The window of a cell and the scan of step 3\<close>

lemma upto_three: "[i - 1 .. i + 1] = [i - 1, i, i + 1]"
proof -
  have "[i - 1 .. i + 1] = (i - 1) # [i .. i + 1]" by (simp add: upto_rec1)
  also have "[i .. i + 1] = i # [i + 1 .. i + 1]" by (simp add: upto_rec1)
  finally show ?thesis by simp
qed

lemma window_explicit:
  "window (r, q) = [(r - 1, q - 1), (r - 1, q), (r - 1, q + 1),
                    (r, q - 1), (r, q), (r, q + 1),
                    (r + 1, q - 1), (r + 1, q), (r + 1, q + 1)]"
  by (simp add: window_def upto_three)

lemma distinct_window: "distinct (window c)"
  by (cases c) (simp add: window_explicit)

lemma set_upto_three: "set [i - 1 .. i + 1] = {j. \<bar>j - i\<bar> \<le> 1}"
  by auto

lemma set_window: "set (window c) = {n. \<bar>fst n - fst c\<bar> \<le> 1 \<and> \<bar>snd n - snd c\<bar> \<le> 1}"
  unfolding window_def set_concat set_map set_upto_three by force


lemma neighbours_Moore:
  "neighbours a c = {n. \<bar>fst n - fst c\<bar> \<le> 1 \<and> \<bar>snd n - snd c\<bar> \<le> 1 \<and> n \<noteq> c \<and> in_bounds a n}"
  unfolding neighbours_def set_window by blast

lemma finite_neighbours: "finite (neighbours a c)"
  by (simp add: neighbours_def)

lemma finite_unclassified: "finite (unclassified a c)"
  by (simp add: unclassified_def finite_neighbours)

lemma finite_counted_mines: "finite (counted_mines a c)"
  by (simp add: counted_mines_def finite_neighbours)

lemma filter_snoc_set:
  "{n \<in> set (xs @ [x]). P n} = (if P x then insert x {n \<in> set xs. P n} else {n \<in> set xs. P n})"
  by auto

lemma card_filter_snoc:
  "x \<notin> set xs \<Longrightarrow>
   int (card {n \<in> set (xs @ [x]). P n}) = int (card {n \<in> set xs. P n}) + (if P x then 1 else 0)"
proof -
  assume x: "x \<notin> set xs"
  have fin: "finite {n \<in> set xs. P n}" by simp
  have notin: "x \<notin> {n \<in> set xs. P n}" using x by simp
  have "card (insert x {n \<in> set xs. P n}) = Suc (card {n \<in> set xs. P n})"
    by (rule card_insert_disjoint [OF fin notin])
  then show ?thesis unfolding filter_snoc_set by simp
qed

lemma scan_foldl:
  "distinct xs \<Longrightarrow>
   foldl (scan_cell a c) acc xs =
     (fst acc - int (card {n \<in> set xs. n \<noteq> c \<and> in_bounds a n \<and> n \<notin> safes a \<and> n \<in> mines a}),
      snd acc \<union> {n \<in> set xs. n \<noteq> c \<and> in_bounds a n \<and> n \<notin> safes a \<and> n \<notin> mines a})"
proof (induction xs rule: rev_induct)
  case Nil
  show ?case by simp
next
  case (snoc x xs)
  from snoc.prems have d: "distinct xs" and x: "x \<notin> set xs" by simp_all
  have step: "foldl (scan_cell a c) acc (xs @ [x]) = scan_cell a c (foldl (scan_cell a c) acc xs) x"
    by simp
  show ?case
    unfolding step snoc.IH [OF d] card_filter_snoc [OF x]
    unfolding filter_snoc_set
    by (simp add: scan_cell_def)
qed


lemma scan_neighbors_eq:
  "scan_neighbors a c cnt = (cnt - int (card (counted_mines a c)), unclassified a c)"
proof -
  have K: "{n \<in> set (window c). n \<noteq> c \<and> in_bounds a n \<and> n \<notin> safes a \<and> n \<in> mines a} = counted_mines a c"
    unfolding counted_mines_def neighbours_def by blast
  have U: "{n \<in> set (window c). n \<noteq> c \<and> in_bounds a n \<and> n \<notin> safes a \<and> n \<notin> mines a} = unclassified a c"
    unfolding unclassified_def neighbours_def by blast
  show ?thesis
    unfolding scan_neighbors_def scan_foldl [OF distinct_window] K U by simp
qed

lemma nearby_foldl:
  "distinct xs \<Longrightarrow>
   foldl (\<lambda>cnt n. if n = c then cnt
                    else if 0 \<le> fst n \<and> fst n < h \<and> 0 \<le> snd n \<and> snd n < w
                         then (if n \<in> board then cnt + 1 else cnt)
                         else cnt) k xs
     = k + int (card {n \<in> set xs. n \<noteq> c \<and> (0 \<le> fst n \<and> fst n < h \<and> 0 \<le> snd n \<and> snd n < w) \<and> n \<in> board})"
proof (induction xs rule: rev_induct)
  case Nil
  show ?case by simp
next
  case (snoc x xs)
  from snoc.prems have d: "distinct xs" and x: "x \<notin> set xs" by simp_all
  show ?case
    unfolding foldl_append snoc.IH [OF d] card_filter_snoc [OF x] by simp
qed

lemma nearby_mines_eq:
  "nearby_mines (height a) (width a) board c = int (card (neighbours a c \<inter> board))"
proof -
  have K: "{n \<in> set (window c). n \<noteq> c \<and> (0 \<le> fst n \<and> fst n < height a \<and> 0 \<le> snd n \<and> snd n < width a) \<and> n \<in> board}
            = neighbours a c \<inter> board"
    unfolding neighbours_def in_bounds_def by blast
  show ?thesis
    unfolding nearby_mines_def nearby_foldl [OF distinct_window] K by simp
qed

subsection \<open>Step 3: marking all the neighbours\<close>

lemma set_order_set: "set_order enum \<Longrightarrow> finite S \<Longrightarrow> set (enum S) = S"
  by (simp add: set_order_def)

lemma sorted_list_of_set_order: "set_order sorted_list_of_set"
  by (simp add: set_order_def)

lemma unclassified_mark_safe:
  "unclassified (mark_safe c (a\<lparr>moves_made := m\<rparr>)) c = unclassified a c"
  "counted_mines (mark_safe c (a\<lparr>moves_made := m\<rparr>)) c = counted_mines a c"
  unfolding unclassified_def counted_mines_def neighbours_def in_bounds_def by auto

lemma absorb_full:
  assumes "set_order enum" and "cnt = int (card (unclassified a c)) + int (card (counted_mines a c))"
  shows "unclassified a c \<subseteq> mines (absorb enum c cnt a)"
  using assms by (simp add: absorb_def Let_def scan_neighbors_eq set_order_set finite_unclassified)





text \<open>
  Claim C6, as amended. For every state, every cell and every k and m: if the cell has
  exactly k neighbours classified neither safe nor mine, and exactly m neighbours in the
  mine set for which step 3 decrements the count, then after \<open>add_knowledge(cell, k + m)\<close>
  all of those k neighbours are in the mine set.
\<close>

theorem full_count_propagation:
  assumes "set_order enum"
    and "cnt = int (card (unclassified a c)) + int (card (counted_mines a c))"
  shows "unclassified a c \<subseteq> mines (add_knowledge enum c cnt a)"
proof -
  let ?a = "mark_safe c (a\<lparr>moves_made := insert c (moves_made a)\<rparr>)"
  have "unclassified ?a c \<subseteq> mines (absorb enum c cnt ?a)"
    by (rule absorb_full [OF assms(1)]) (simp add: unclassified_mark_safe assms(2))
  then have "unclassified a c \<subseteq> mines (observed enum c cnt a)"
    by (simp add: observed_def unclassified_mark_safe)
  then show ?thesis
    by (auto simp: add_knowledge_def)
qed

theorem full_count_propagation_witness:
  "set_order sorted_list_of_set
   \<and> (2 :: int) = int (card (unclassified (add_knowledge sorted_list_of_set (0, 0) 1 (init 1 4)) (0, 2)))
                  + int (card (counted_mines (add_knowledge sorted_list_of_set (0, 0) 1 (init 1 4)) (0, 2)))
   \<and> unclassified (add_knowledge sorted_list_of_set (0, 0) 1 (init 1 4)) (0, 2) = {(0, 3)}
   \<and> {(0, 3)} \<subseteq> mines (add_knowledge sorted_list_of_set (0, 2) 2
                          (add_knowledge sorted_list_of_set (0, 0) 1 (init 1 4)))"
proof -
  let ?a = "add_knowledge sorted_list_of_set (0, 0) 1 (init 1 4)"
  have h1: "set_order sorted_list_of_set" by (rule sorted_list_of_set_order)
  have h2: "(2 :: int) = int (card (unclassified ?a (0, 2))) + int (card (counted_mines ?a (0, 2)))"
    by code_simp
  have u: "unclassified ?a (0, 2) = {(0, 3)}" by code_simp
  have "unclassified ?a (0, 2) \<subseteq> mines (add_knowledge sorted_list_of_set (0, 2) 2 ?a)"
    by (rule full_count_propagation [OF h1 h2])
  then have "{(0, 3)} \<subseteq> mines (add_knowledge sorted_list_of_set (0, 2) 2 ?a)"
    unfolding u .
  with h1 h2 u show ?thesis by blast
qed

text \<open>
  The claim as stated fails in the same state (a mine at (0, 1) and nowhere else makes
  both counts truthful): the cell (0, 2) has exactly one unclassified neighbour, (0, 3),
  and \<open>add_knowledge((0, 2), 1)\<close> decrements the count to 0 for the known mine (0, 1)
  and marks (0, 3) safe, not mine.
\<close>

theorem full_count_propagation_counterexample:
  "in_bounds (add_knowledge sorted_list_of_set (0, 0) 1 (init 1 4)) (0, 2)
   \<and> unclassified (add_knowledge sorted_list_of_set (0, 0) 1 (init 1 4)) (0, 2) = {(0, 3)}
   \<and> card {(0, 3) :: cell} = 1
   \<and> (0, 3) \<notin> mines (add_knowledge sorted_list_of_set (0, 2) 1
                       (add_knowledge sorted_list_of_set (0, 0) 1 (init 1 4)))"
  by code_simp

subsection \<open>Repeated and out-of-range observations\<close>

text \<open>
  Claim C2, as amended. \<open>add_knowledge\<close> has no test on \<open>moves_made\<close>: a cell observed
  before is processed like any other. Calling it twice in succession with the same cell
  and count leaves \<open>moves_made\<close> as one call does, and \<open>safes\<close> and \<open>mines\<close> can only
  grow; the list of sentences can differ.
\<close>

theorem observe_twice:
  "moves_made (add_knowledge enum c cnt (add_knowledge enum c cnt a))
     = moves_made (add_knowledge enum c cnt a)
   \<and> safes (add_knowledge enum c cnt a)
       \<subseteq> safes (add_knowledge enum c cnt (add_knowledge enum c cnt a))
   \<and> mines (add_knowledge enum c cnt a)
       \<subseteq> mines (add_knowledge enum c cnt (add_knowledge enum c cnt a))"
  by (auto intro: add_knowledge_mines_mono add_knowledge_safes_mono)

text \<open>
  On an empty board of two rows and two columns, the second call of
  \<open>add_knowledge((0, 0), 1)\<close> appends the sentence of the first call once more.
\<close>

theorem observe_twice_counterexample:
  "knowledge (add_knowledge sorted_list_of_set (0, 0) 1 (init 2 2))
     = [\<lparr>cells = {(0, 1), (1, 0), (1, 1)}, count = 1\<rparr>]
   \<and> knowledge (add_knowledge sorted_list_of_set (0, 0) 1
                  (add_knowledge sorted_list_of_set (0, 0) 1 (init 2 2)))
     = [\<lparr>cells = {(0, 1), (1, 0), (1, 1)}, count = 1\<rparr>,
        \<lparr>cells = {(0, 1), (1, 0), (1, 1)}, count = 1\<rparr>]"
  by code_simp

text \<open>
  Claim C8, as amended. \<open>add_knowledge\<close> has no test on the bounds of the cell it is
  given: for a cell outside the board it returns normally, with the cell recorded in
  \<open>moves_made\<close> and in \<open>safes\<close> as for any other observation.
\<close>

theorem out_of_range_cell_accepted:
  "\<not> in_bounds a c \<Longrightarrow>
     c \<in> moves_made (add_knowledge enum c cnt a) \<and> c \<in> safes (add_knowledge enum c cnt a)"
  by (simp add: add_knowledge_cell_safe)

theorem out_of_range_cell_accepted_witness:
  "\<not> in_bounds (init 3 3) (- 1, 0)
   \<and> (- 1, 0) \<in> moves_made (add_knowledge sorted_list_of_set (- 1, 0) 2 (init 3 3))
   \<and> (- 1, 0) \<in> safes (add_knowledge sorted_list_of_set (- 1, 0) 2 (init 3 3))"
proof -
  have h: "\<not> in_bounds (init 3 3) (- 1, 0)" by (simp add: in_bounds_def)
  from out_of_range_cell_accepted [OF h] h show ?thesis by blast
qed

theorem out_of_range_cell_counterexample:
  "\<not> in_bounds (init 1 1) (5, 5)
   \<and> add_knowledge sorted_list_of_set (5, 5) 0 (init 1 1)
     = \<lparr>height = 1, width = 1, moves_made = {(5, 5)}, mines = {}, safes = {(5, 5)}, knowledge = []\<rparr>"
  by code_simp

subsection \<open>The loop of mark_mine and mark_safe\<close>

lemma mark_body_pres:
  assumes "\<And>s. P s \<Longrightarrow> P (f s)" and "\<forall>s \<in> set ks. P s" and "i < length ks"
  shows "\<forall>s \<in> set (snd (mark_body f (i, ks))). P s"
proof -
  have "P (f (ks ! i))" using assms by simp
  then have upd: "\<forall>s \<in> set (ks[i := f (ks ! i)]). P s"
    using assms(2) by (auto dest: subsetD [OF set_update_subset_insert])
  then have "\<forall>s \<in> set (remove1 (f (ks ! i)) (ks[i := f (ks ! i)])). P s"
    by (auto dest: notin_set_remove1)
  with upd show ?thesis by (simp add: mark_body_def Let_def)
qed

lemma mark_loop_pres_aux:
  "(\<forall>s. P s \<longrightarrow> P (f s)) \<Longrightarrow> \<forall>s \<in> set ks. P s \<Longrightarrow> \<forall>s \<in> set (mark_loop f i ks). P s"
proof (induction f i ks rule: mark_loop.induct)
  case (1 f i ks)
  show ?case
  proof (cases "i < length ks")
    case True
    have "\<forall>s \<in> set (snd (mark_body f (i, ks))). P s"
      using "1.prems" True by (intro mark_body_pres) auto
    then have "\<forall>s \<in> set (mark_loop f (fst (mark_body f (i, ks))) (snd (mark_body f (i, ks)))). P s"
      by (rule "1.IH" [OF True "1.prems"(1)])
    then show ?thesis using True by (simp add: mark_loop.simps [of f i ks])
  next
    case False
    then show ?thesis using "1.prems" by (simp add: mark_loop.simps [of f i ks])
  qed
qed

lemma mark_loop_pres:
  assumes "\<And>s. P s \<Longrightarrow> P (f s)" and "\<forall>s \<in> set ks. P s"
  shows "\<forall>s \<in> set (mark_loop f i ks). P s"
  using assms by (intro mark_loop_pres_aux) auto

lemma mark_body_index: "fst (mark_body f (i, ks)) = Suc i"
  by (simp add: mark_body_def Let_def)

lemma mark_body_length: "length (snd (mark_body f (i, ks))) \<le> length ks"
  by (simp add: mark_body_def Let_def length_remove1)

lemma mark_loop_rounds:
  "\<exists>n \<le> length ks - i.
     mark_loop f i ks = snd ((mark_body f ^^ n) (i, ks))
     \<and> length (snd ((mark_body f ^^ n) (i, ks))) \<le> fst ((mark_body f ^^ n) (i, ks))"
proof (induction f i ks rule: mark_loop.induct)
  case (1 f i ks)
  show ?case
  proof (cases "i < length ks")
    case True
    let ?c = "mark_body f (i, ks)"
    from "1.IH" [OF True] obtain n where
      n: "n \<le> length (snd ?c) - fst ?c"
      and res: "mark_loop f (fst ?c) (snd ?c) = snd ((mark_body f ^^ n) (fst ?c, snd ?c))"
      and fin: "length (snd ((mark_body f ^^ n) (fst ?c, snd ?c))) \<le> fst ((mark_body f ^^ n) (fst ?c, snd ?c))"
      by blast
    have it: "(mark_body f ^^ Suc n) (i, ks) = (mark_body f ^^ n) (fst ?c, snd ?c)"
      by (simp add: funpow_swap1)
    have "Suc n \<le> length ks - i"
      using n True mark_body_length [of f i ks] by (simp add: mark_body_index)
    moreover have "mark_loop f i ks = snd ((mark_body f ^^ Suc n) (i, ks))"
      unfolding it using res True by (simp add: mark_loop.simps [of f i ks])
    moreover have "length (snd ((mark_body f ^^ Suc n) (i, ks))) \<le> fst ((mark_body f ^^ Suc n) (i, ks))"
      unfolding it by (rule fin)
    ultimately show ?thesis by blast
  next
    case False
    then have "mark_loop f i ks = snd ((mark_body f ^^ 0) (i, ks))
               \<and> length (snd ((mark_body f ^^ 0) (i, ks))) \<le> fst ((mark_body f ^^ 0) (i, ks))"
      by (simp add: mark_loop.simps [of f i ks])
    then show ?thesis by blast
  qed
qed

text \<open>
  Claim C9. The closure inside \<open>add_knowledge\<close> ends after a bounded number of passes:
  the method runs steps 3, 4 and 5 once each, in that order, with no loop around them
  (one pass). Its loops run over lists that they do not change, which are finite, but for
  the loops of \<open>mark_mine\<close> and \<open>mark_safe\<close>, which remove sentences from the list they run
  over; these leave after at most as many rounds of their body as the list has sentences
  when they start.
\<close>

theorem closure_loops_bounded:
  "add_knowledge enum c' cnt a = subset_resolution enum (direct enum (observed enum c' cnt a))
   \<and> (\<exists>n \<le> length (knowledge a).
      knowledge (mark_mine c a) = snd ((mark_body (sentence_mark_mine c) ^^ n) (0, knowledge a))
      \<and> length (snd ((mark_body (sentence_mark_mine c) ^^ n) (0, knowledge a)))
          \<le> fst ((mark_body (sentence_mark_mine c) ^^ n) (0, knowledge a)))
   \<and> (\<exists>n \<le> length (knowledge a).
      knowledge (mark_safe c a) = snd ((mark_body (sentence_mark_safe c) ^^ n) (0, knowledge a))
      \<and> length (snd ((mark_body (sentence_mark_safe c) ^^ n) (0, knowledge a)))
          \<le> fst ((mark_body (sentence_mark_safe c) ^^ n) (0, knowledge a)))"
  using mark_loop_rounds [of "knowledge a" 0 "sentence_mark_mine c"]
        mark_loop_rounds [of "knowledge a" 0 "sentence_mark_safe c"]
  by (simp add: mark_mine_knowledge mark_safe_knowledge add_knowledge_def)

subsection \<open>Step 5: the lists of subset resolution\<close>

lemma foldl_append_field:
  assumes "\<And>r y. fld (step r y) = fld r @ g y"
  shows "fld (foldl step r ys) = fld r @ concat (map g ys)"
  by (induction ys arbitrary: r) (simp_all add: assms)

lemma resolve_pair_new_knowledge:
  "new_knowledge (resolve_pair enum A r B) = new_knowledge r @
     (if resolvable A B \<and> \<not> all_safe (candidate A B) \<and> \<not> all_mine (candidate A B)
      then [candidate A B] else [])"
  by (simp add: resolve_pair_def resolvable_def all_safe_def all_mine_def candidate_def Let_def)

lemma resolve_pair_safe:
  "cells_to_mark_as_safe (resolve_pair enum A r B) = cells_to_mark_as_safe r @
     (if resolvable A B \<and> all_safe (candidate A B) then enum (cells (candidate A B)) else [])"
  by (simp add: resolve_pair_def resolvable_def all_safe_def all_mine_def candidate_def Let_def)

lemma resolve_pair_mines:
  "cells_to_mark_as_mines (resolve_pair enum A r B) = cells_to_mark_as_mines r @
     (if resolvable A B \<and> \<not> all_safe (candidate A B) \<and> all_mine (candidate A B)
      then enum (cells (candidate A B)) else [])"
  by (simp add: resolve_pair_def resolvable_def all_safe_def all_mine_def candidate_def Let_def)

lemma resolve_new_knowledge:
  "new_knowledge (resolve enum ks) =
     concat (map (\<lambda>A. concat (map (\<lambda>B.
       if resolvable A B \<and> \<not> all_safe (candidate A B) \<and> \<not> all_mine (candidate A B)
       then [candidate A B] else []) ks)) ks)"
  unfolding resolve_def
  by (subst foldl_append_field [where fld = new_knowledge and g = "\<lambda>A. concat (map (\<lambda>B.
       if resolvable A B \<and> \<not> all_safe (candidate A B) \<and> \<not> all_mine (candidate A B)
       then [candidate A B] else []) ks)"])
     (simp_all add: foldl_append_field [where fld = new_knowledge, OF resolve_pair_new_knowledge])

lemma resolve_safe:
  "cells_to_mark_as_safe (resolve enum ks) =
     concat (map (\<lambda>A. concat (map (\<lambda>B.
       if resolvable A B \<and> all_safe (candidate A B) then enum (cells (candidate A B)) else []) ks)) ks)"
  unfolding resolve_def
  by (subst foldl_append_field [where fld = cells_to_mark_as_safe and g = "\<lambda>A. concat (map (\<lambda>B.
       if resolvable A B \<and> all_safe (candidate A B) then enum (cells (candidate A B)) else []) ks)"])
     (simp_all add: foldl_append_field [where fld = cells_to_mark_as_safe, OF resolve_pair_safe])

lemma resolve_mines:
  "cells_to_mark_as_mines (resolve enum ks) =
     concat (map (\<lambda>A. concat (map (\<lambda>B.
       if resolvable A B \<and> \<not> all_safe (candidate A B) \<and> all_mine (candidate A B)
       then enum (cells (candidate A B)) else []) ks)) ks)"
  unfolding resolve_def
  by (subst foldl_append_field [where fld = cells_to_mark_as_mines and g = "\<lambda>A. concat (map (\<lambda>B.
       if resolvable A B \<and> \<not> all_safe (candidate A B) \<and> all_mine (candidate A B)
       then enum (cells (candidate A B)) else []) ks)"])
     (simp_all add: foldl_append_field [where fld = cells_to_mark_as_mines, OF resolve_pair_mines])




subsection \<open>Sentences with finitely many cells\<close>

lemma finite_cells_mark_mine: "finite_cells (knowledge a) \<Longrightarrow> finite_cells (knowledge (mark_mine c a))"
  unfolding finite_cells_def mark_mine_knowledge
  by (rule mark_loop_pres) (simp_all add: sentence_mark_mine_def)

lemma finite_cells_mark_safe: "finite_cells (knowledge a) \<Longrightarrow> finite_cells (knowledge (mark_safe c a))"
  unfolding finite_cells_def mark_safe_knowledge
  by (rule mark_loop_pres) (simp_all add: sentence_mark_safe_def)

lemma finite_cells_mark_mines: "finite_cells (knowledge a) \<Longrightarrow> finite_cells (knowledge (mark_mines cs a))"
  unfolding mark_mines_def by (induction cs arbitrary: a) (simp_all add: finite_cells_mark_mine)

lemma finite_cells_mark_safes: "finite_cells (knowledge a) \<Longrightarrow> finite_cells (knowledge (mark_safes cs a))"
  unfolding mark_safes_def by (induction cs arbitrary: a) (simp_all add: finite_cells_mark_safe)

lemma finite_cells_absorb: "finite_cells (knowledge a) \<Longrightarrow> finite_cells (knowledge (absorb enum c cnt a))"
  by (simp add: absorb_def Let_def scan_neighbors_eq finite_cells_mark_mines finite_cells_mark_safes)
     (simp add: finite_cells_def finite_unclassified)

lemma finite_cells_observed: "finite_cells (knowledge a) \<Longrightarrow> finite_cells (knowledge (observed enum c cnt a))"
  unfolding observed_def
  by (rule finite_cells_absorb, rule finite_cells_mark_safe) simp

lemma finite_cells_direct: "finite_cells (knowledge a) \<Longrightarrow> finite_cells (knowledge (direct enum a))"
  by (simp add: direct_def Let_def finite_cells_mark_mines finite_cells_mark_safes)

lemma foldl_union: "foldl (\<lambda>acc s. acc \<union> g s) S ks = S \<union> \<Union> (g ` set ks)"
  by (induction ks arbitrary: S) auto

lemma discovered_mines_eq: "discovered_mines ks = \<Union> (known_mines ` set ks)"
  by (simp add: discovered_mines_def foldl_union)

lemma discovered_safes_eq: "discovered_safes ks = \<Union> (known_safes ` set ks)"
  by (simp add: discovered_safes_def foldl_union)

lemma finite_discovered:
  assumes "finite_cells ks"
  shows "finite (discovered_mines ks)" and "finite (discovered_safes ks)"
  using assms
  by (auto simp: discovered_mines_eq discovered_safes_eq finite_cells_def known_mines_def known_safes_def)

subsection \<open>One pass of the closure\<close>

lemma set_concat_if:
  "x \<in> set xs \<Longrightarrow> y \<in> set ys \<Longrightarrow> P x y \<Longrightarrow>
   set (g x y) \<subseteq> set (concat (map (\<lambda>A. concat (map (\<lambda>B. if P A B then g A B else []) ys)) xs))"
  by force

text \<open>
  Claim C1, as amended. \<open>add_knowledge\<close> makes one pass, not a fixed point. When it
  returns, (a) every cell that \<open>known_mines\<close> or \<open>known_safes\<close> gives for a sentence stored
  at the end of step 3 is in \<open>mines\<close> or in \<open>safes\<close>, and (b) for every ordered pair of
  unequal sentences A, B stored at the end of step 4 with the cells of A among the cells
  of B, the cells of the candidate are in \<open>safes\<close> when the candidate is all safe and in
  \<open>mines\<close> when it is all mine. What these markings and the appended candidates make
  derivable in turn is not derived in the same call.
\<close>

theorem single_pass:
  assumes "set_order enum" and "finite_cells (knowledge a)"
  shows "(\<forall>s \<in> set (knowledge (observed enum c cnt a)).
            known_mines s \<subseteq> mines (add_knowledge enum c cnt a)
            \<and> known_safes s \<subseteq> safes (add_knowledge enum c cnt a))
         \<and> (\<forall>A \<in> set (knowledge (direct enum (observed enum c cnt a))).
            \<forall>B \<in> set (knowledge (direct enum (observed enum c cnt a))).
              resolvable A B \<longrightarrow>
                (all_safe (candidate A B) \<longrightarrow> cells (candidate A B) \<subseteq> safes (add_knowledge enum c cnt a))
                \<and> (all_mine (candidate A B) \<longrightarrow> cells (candidate A B) \<subseteq> mines (add_knowledge enum c cnt a)))"
proof (intro conjI ballI impI)
  let ?a3 = "observed enum c cnt a"
  let ?a4 = "direct enum ?a3"
  have f3: "finite_cells (knowledge ?a3)" by (rule finite_cells_observed [OF assms(2)])
  have f4: "finite_cells (knowledge ?a4)" by (rule finite_cells_direct [OF f3])
  {
    fix s assume s: "s \<in> set (knowledge ?a3)"
    have "known_mines s \<subseteq> discovered_mines (knowledge ?a3)"
      using s by (auto simp: discovered_mines_eq)
    then show "known_mines s \<subseteq> mines (add_knowledge enum c cnt a)"
      using set_order_set [OF assms(1) finite_discovered(1) [OF f3]]
      by (auto simp: add_knowledge_def)
    have "known_safes s \<subseteq> discovered_safes (knowledge ?a3)"
      using s by (auto simp: discovered_safes_eq)
    then show "known_safes s \<subseteq> safes (add_knowledge enum c cnt a)"
      using set_order_set [OF assms(1) finite_discovered(2) [OF f3]]
      by (auto simp: add_knowledge_def)
  }
  fix A B
  assume A: "A \<in> set (knowledge ?a4)" and B: "B \<in> set (knowledge ?a4)" and r: "resolvable A B"
  have finB: "finite (cells (candidate A B))"
    using f4 B by (simp add: finite_cells_def candidate_def)
  have en: "set (enum (cells (candidate A B))) = cells (candidate A B)"
    by (rule set_order_set [OF assms(1) finB])
  {
    assume "all_safe (candidate A B)"
    with r have "set (enum (cells (candidate A B))) \<subseteq> set (cells_to_mark_as_safe (resolve enum (knowledge ?a4)))"
      unfolding resolve_safe
      by (intro set_concat_if [where P = "\<lambda>A B. resolvable A B \<and> all_safe (candidate A B)", OF A B]) simp
    then show "cells (candidate A B) \<subseteq> safes (add_knowledge enum c cnt a)"
      unfolding en by (auto simp: add_knowledge_def)
  }
  {
    assume am: "all_mine (candidate A B)"
    show "cells (candidate A B) \<subseteq> mines (add_knowledge enum c cnt a)"
    proof (cases "all_safe (candidate A B)")
      case True
      with am finB have "cells (candidate A B) = {}" by (simp add: all_safe_def all_mine_def)
      then show ?thesis by simp
    next
      case False
      with r am have "set (enum (cells (candidate A B))) \<subseteq> set (cells_to_mark_as_mines (resolve enum (knowledge ?a4)))"
        unfolding resolve_mines
        by (intro set_concat_if [where P = "\<lambda>A B. resolvable A B \<and> \<not> all_safe (candidate A B) \<and> all_mine (candidate A B)", OF A B]) simp
      then show ?thesis
        unfolding en by (auto simp: add_knowledge_def)
    qed
  }
qed


text \<open>
  An instance: on a board of three rows and five columns, after the observation of (0, 0)
  with count 1, the observation of (0, 1) with count 1 stores a second sentence whose
  cells include the cells of the first; the candidate has count 0, and its cells (0, 2)
  and (1, 2) are marked safe.
\<close>

theorem single_pass_witness:
  "set_order sorted_list_of_set
   \<and> finite_cells (knowledge (add_knowledge sorted_list_of_set (0, 0) 1 (init 3 5)))
   \<and> knowledge (direct sorted_list_of_set
        (observed sorted_list_of_set (0, 1) 1 (add_knowledge sorted_list_of_set (0, 0) 1 (init 3 5))))
      = [\<lparr>cells = {(1, 0), (1, 1)}, count = 1\<rparr>, \<lparr>cells = {(0, 2), (1, 0), (1, 1), (1, 2)}, count = 1\<rparr>]
   \<and> resolvable \<lparr>cells = {(1, 0), (1, 1)}, count = 1\<rparr> \<lparr>cells = {(0, 2), (1, 0), (1, 1), (1, 2)}, count = 1\<rparr>
   \<and> all_safe (candidate \<lparr>cells = {(1, 0), (1, 1)}, count = 1\<rparr> \<lparr>cells = {(0, 2), (1, 0), (1, 1), (1, 2)}, count = 1\<rparr>)
   \<and> cells (candidate \<lparr>cells = {(1, 0), (1, 1)}, count = 1\<rparr> \<lparr>cells = {(0, 2), (1, 0), (1, 1), (1, 2)}, count = 1\<rparr>)
      = {(0, 2), (1, 2)}
   \<and> {(0, 2), (1, 2)}
      \<subseteq> safes (add_knowledge sorted_list_of_set (0, 1) 1 (add_knowledge sorted_list_of_set (0, 0) 1 (init 3 5)))"
proof -
  let ?a = "add_knowledge sorted_list_of_set (0, 0) 1 (init 3 5)"
  let ?A = "\<lparr>cells = {(1, 0), (1, 1)}, count = 1\<rparr> :: sentence"
  let ?B = "\<lparr>cells = {(0, 2), (1, 0), (1, 1), (1, 2)}, count = 1\<rparr> :: sentence"
  have h1: "set_order sorted_list_of_set" by (rule sorted_list_of_set_order)
  have ka: "knowledge ?a = [\<lparr>cells = {(0, 1), (1, 0), (1, 1)}, count = 1\<rparr>]" by code_simp
  have h2: "finite_cells (knowledge ?a)" unfolding ka by (simp add: finite_cells_def)
  have k: "knowledge (direct sorted_list_of_set (observed sorted_list_of_set (0, 1) 1 ?a)) = [?A, ?B]"
    by code_simp
  have r: "resolvable ?A ?B" by code_simp
  have s: "all_safe (candidate ?A ?B)" by code_simp
  have c: "cells (candidate ?A ?B) = {(0, 2), (1, 2)}" by code_simp
  have "cells (candidate ?A ?B) \<subseteq> safes (add_knowledge sorted_list_of_set (0, 1) 1 ?a)"
    using single_pass [OF h1 h2, of "(0, 1)" 1] r s unfolding k by simp
  then have "{(0, 2), (1, 2)} \<subseteq> safes (add_knowledge sorted_list_of_set (0, 1) 1 ?a)"
    unfolding c .
  with h1 h2 k r s c show ?thesis by blast
qed

text \<open>
  The claim as stated fails on a board of one row and five columns with a mine at (0, 2).
  The truthful observations of (0, 3), (0, 1) and (0, 0) end in the single sentence
  \<open>{(0, 4)} = 0\<close>: step 4 of the third call marked the mine (0, 2), which turned the
  sentence \<open>{(0, 2), (0, 4)} = 1\<close> into it, after the known safe cells had been collected.
  Collecting the known safe cells once more yields (0, 4), which is not in \<open>safes\<close>.
\<close>

theorem single_pass_counterexample:
  "knowledge (run sorted_list_of_set [((0, 3), 1), ((0, 1), 1), ((0, 0), 0)] (init 1 5))
     = [\<lparr>cells = {(0, 4)}, count = 0\<rparr>]
   \<and> (0, 4) \<in> discovered_safes (knowledge (run sorted_list_of_set [((0, 3), 1), ((0, 1), 1), ((0, 0), 0)] (init 1 5)))
   \<and> (0, 4) \<notin> safes (run sorted_list_of_set [((0, 3), 1), ((0, 1), 1), ((0, 0), 0)] (init 1 5))"
  by code_simp

subsection \<open>Cells left in stored sentences\<close>

text \<open>
  Claim C3, at its failing input. On a board of one row and five columns with a mine at
  (0, 2), after the truthful observations of (0, 1) and (0, 3) the third call, for (0, 0),
  reaches step 4 with the sentences \<open>{(0, 2)} = 1\<close> and \<open>{(0, 2), (0, 4)} = 1\<close>.
  \<open>mark_mine((0, 2))\<close> empties the first one and removes it inside the loop; the iterator
  then stands past the end of the shortened list, the second sentence is never visited,
  and the call returns with (0, 2) in \<open>mines\<close> and in a stored sentence whose count was
  not decremented.
\<close>

theorem mark_mine_skips_sentence:
  "knowledge (observed sorted_list_of_set (0, 0) 0
        (run sorted_list_of_set [((0, 1), 1), ((0, 3), 1)] (init 1 5)))
     = [\<lparr>cells = {(0, 2)}, count = 1\<rparr>, \<lparr>cells = {(0, 2), (0, 4)}, count = 1\<rparr>]
   \<and> knowledge (mark_mine (0, 2) (observed sorted_list_of_set (0, 0) 0
        (run sorted_list_of_set [((0, 1), 1), ((0, 3), 1)] (init 1 5))))
     = [\<lparr>cells = {(0, 2), (0, 4)}, count = 1\<rparr>]
   \<and> run sorted_list_of_set [((0, 1), 1), ((0, 3), 1), ((0, 0), 0)] (init 1 5)
     = \<lparr>height = 1, width = 5, moves_made = {(0, 0), (0, 1), (0, 3)}, mines = {(0, 2)},
        safes = {(0, 0), (0, 1), (0, 3)}, knowledge = [\<lparr>cells = {(0, 2), (0, 4)}, count = 1\<rparr>]\<rparr>"
  by code_simp

subsection \<open>Soundness of the player for a board\<close>

lemma holds_on_mark_mine: "c \<in> board \<Longrightarrow> holds_on board s \<Longrightarrow> holds_on board (sentence_mark_mine c s)"
proof (cases "c \<in> cells s")
  case False
  assume "holds_on board s"
  with False show ?thesis by (simp add: sentence_mark_mine_def)
next
  case True
  assume c: "c \<in> board" and h: "holds_on board s"
  have fin: "finite (cells s \<inter> board)" using h by (simp add: holds_on_def)
  have eq: "(cells s - {c}) \<inter> board = (cells s \<inter> board) - {c}" by blast
  have "card ((cells s \<inter> board) - {c}) = card (cells s \<inter> board) - 1"
    using True c fin by (simp add: card_Diff_singleton)
  moreover have "card (cells s \<inter> board) > 0"
    using True c fin by (auto simp: card_gt_0_iff)
  ultimately have "int (card ((cells s - {c}) \<inter> board)) = count s - 1"
    using h unfolding eq by (simp add: holds_on_def)
  with True h show ?thesis by (simp add: sentence_mark_mine_def holds_on_def)
qed

lemma holds_on_mark_safe: "c \<notin> board \<Longrightarrow> holds_on board s \<Longrightarrow> holds_on board (sentence_mark_safe c s)"
proof -
  assume c: "c \<notin> board" and h: "holds_on board s"
  have "(cells s - {c}) \<inter> board = cells s \<inter> board" using c by blast
  with h show ?thesis by (simp add: sentence_mark_safe_def holds_on_def)
qed

lemma sound_mark_mine:
  assumes "c \<in> board" and "sound board a"
  shows "sound board (mark_mine c a)"
proof -
  have "\<forall>s \<in> set (knowledge a). holds_on board s" using assms(2) by (simp add: sound_def)
  then have "\<forall>s \<in> set (mark_loop (sentence_mark_mine c) 0 (knowledge a)). holds_on board s"
    by (rule mark_loop_pres [rotated]) (rule holds_on_mark_mine [OF assms(1)])
  then show ?thesis using assms by (simp add: sound_def mark_mine_knowledge)
qed


lemma sound_mark_safe:
  assumes "c \<notin> board" and "sound board a"
  shows "sound board (mark_safe c a)"
proof -
  have "\<forall>s \<in> set (knowledge a). holds_on board s" using assms(2) by (simp add: sound_def)
  then have "\<forall>s \<in> set (mark_loop (sentence_mark_safe c) 0 (knowledge a)). holds_on board s"
    by (rule mark_loop_pres [rotated]) (rule holds_on_mark_safe [OF assms(1)])
  then show ?thesis using assms by (simp add: sound_def mark_safe_knowledge)
qed

lemma sound_mark_mines: "set cs \<subseteq> board \<Longrightarrow> sound board a \<Longrightarrow> sound board (mark_mines cs a)"
  unfolding mark_mines_def by (induction cs arbitrary: a) (simp_all add: sound_mark_mine)

lemma sound_mark_safes: "set cs \<inter> board = {} \<Longrightarrow> sound board a \<Longrightarrow> sound board (mark_safes cs a)"
  unfolding mark_safes_def by (induction cs arbitrary: a) (simp_all add: sound_mark_safe)

lemma holds_on_all_mine:
  assumes "holds_on board s" and "int (card (cells s)) = count s"
  shows "cells s \<subseteq> board"
proof -
  have "card (cells s \<inter> board) = card (cells s)" using assms by (simp add: holds_on_def)
  moreover have "finite (cells s)" using assms(1) by (simp add: holds_on_def)
  ultimately have "cells s \<inter> board = cells s"
    by (intro card_subset_eq) simp_all
  then show ?thesis by blast
qed

lemma holds_on_all_safe:
  assumes "holds_on board s" and "count s = 0"
  shows "cells s \<inter> board = {}"
proof -
  have "finite (cells s \<inter> board)" and "card (cells s \<inter> board) = 0"
    using assms by (simp_all add: holds_on_def)
  then show ?thesis by simp
qed

lemma holds_on_candidate:
  assumes "holds_on board A" and "holds_on board B" and "cells A \<subseteq> cells B"
  shows "holds_on board (candidate A B)"
proof -
  have finB: "finite (cells B)" and finA: "finite (cells A)" using assms by (simp_all add: holds_on_def)
  have eq: "(cells B - cells A) \<inter> board = (cells B \<inter> board) - (cells A \<inter> board)" by blast
  have sub: "cells A \<inter> board \<subseteq> cells B \<inter> board" using assms(3) by blast
  have "card ((cells B \<inter> board) - (cells A \<inter> board)) = card (cells B \<inter> board) - card (cells A \<inter> board)"
    using finA sub by (intro card_Diff_subset) simp_all
  moreover have "card (cells A \<inter> board) \<le> card (cells B \<inter> board)"
    using finB sub by (intro card_mono) simp_all
  ultimately have "int (card ((cells B - cells A) \<inter> board)) = count B - count A"
    using assms(1,2) unfolding eq by (simp add: holds_on_def)
  then show ?thesis using finB by (simp add: holds_on_def candidate_def)
qed


lemma neighbours_board_split:
  assumes "sound board a"
  shows "int (card (neighbours a c \<inter> board))
           = int (card (counted_mines a c)) + int (card (unclassified a c \<inter> board))"
proof -
  have m: "mines a \<subseteq> board" and s: "safes a \<inter> board = {}" using assms by (simp_all add: sound_def)
  have eq: "neighbours a c \<inter> board = counted_mines a c \<union> (unclassified a c \<inter> board)"
    using m s unfolding counted_mines_def unclassified_def by blast
  have dis: "counted_mines a c \<inter> (unclassified a c \<inter> board) = {}"
    unfolding counted_mines_def unclassified_def by blast
  have "card (counted_mines a c \<union> (unclassified a c \<inter> board))
          = card (counted_mines a c) + card (unclassified a c \<inter> board)"
    using dis by (intro card_Un_disjoint) (simp_all add: finite_counted_mines finite_unclassified)
  then show ?thesis unfolding eq by simp
qed

lemma sound_absorb:
  assumes "set_order enum" and "sound board a"
    and "cnt = int (card (neighbours a c \<inter> board))"
  shows "sound board (absorb enum c cnt a)"
proof -
  let ?U = "unclassified a c"
  let ?cnt = "cnt - int (card (counted_mines a c))"
  have en: "set (enum ?U) = ?U" by (rule set_order_set [OF assms(1) finite_unclassified])
  have new: "holds_on board \<lparr>cells = ?U, count = ?cnt\<rparr>"
    using neighbours_board_split [OF assms(2), of c] assms(3)
    by (simp add: holds_on_def finite_unclassified)
  show ?thesis
  proof (cases "int (card ?U) = ?cnt")
    case True
    have "?U \<subseteq> board" using holds_on_all_mine [OF new] True by simp
    then have "sound board (mark_mines (enum ?U) a)"
      by (intro sound_mark_mines) (simp_all add: en assms(2))
    with True show ?thesis by (simp add: absorb_def Let_def scan_neighbors_eq)
  next
    case False
    show ?thesis
    proof (cases "?cnt = 0 \<and> card ?U > 0")
      case True
      have "?U \<inter> board = {}" using holds_on_all_safe [OF new] True by simp
      then have "sound board (mark_safes (enum ?U) a)"
        by (intro sound_mark_safes) (simp_all add: en assms(2))
      with True False show ?thesis by (simp add: absorb_def Let_def scan_neighbors_eq)
    next
      case F2: False
      have "sound board (a\<lparr>knowledge := knowledge a @ [\<lparr>cells = ?U, count = ?cnt\<rparr>]\<rparr>)"
        using assms(2) new by (simp add: sound_def)
      with False F2 show ?thesis by (simp add: absorb_def Let_def scan_neighbors_eq)
    qed
  qed
qed

lemma neighbours_mark_safe:
  "neighbours (mark_safe c (a\<lparr>moves_made := m\<rparr>)) c' = neighbours a c'"
  by (simp add: neighbours_def in_bounds_def)

lemma sound_observed:
  assumes "set_order enum" and "sound board a" and "c \<notin> board"
    and "cnt = nearby_mines (height a) (width a) board c"
  shows "sound board (observed enum c cnt a)"
proof -
  let ?a = "mark_safe c (a\<lparr>moves_made := insert c (moves_made a)\<rparr>)"
  have "sound board (a\<lparr>moves_made := insert c (moves_made a)\<rparr>)"
    using assms(2) by (simp add: sound_def)
  then have s: "sound board ?a" by (rule sound_mark_safe [OF assms(3)])
  have "cnt = int (card (neighbours ?a c \<inter> board))"
    unfolding neighbours_mark_safe assms(4) by (rule nearby_mines_eq)
  then show ?thesis unfolding observed_def by (rule sound_absorb [OF assms(1) s])
qed


lemma sound_finite_cells: "sound board a \<Longrightarrow> finite_cells (knowledge a)"
  by (simp add: sound_def finite_cells_def holds_on_def)

lemma sound_direct:
  assumes "set_order enum" and "sound board a"
  shows "sound board (direct enum a)"
proof -
  let ?dm = "discovered_mines (knowledge a)"
  let ?ds = "discovered_safes (knowledge a)"
  have h: "\<And>s. s \<in> set (knowledge a) \<Longrightarrow> holds_on board s" using assms(2) by (simp add: sound_def)
  have fc: "finite_cells (knowledge a)" by (rule sound_finite_cells [OF assms(2)])
  have "\<And>s. s \<in> set (knowledge a) \<Longrightarrow> known_mines s \<subseteq> board"
    using holds_on_all_mine [OF h] by (simp add: known_mines_def)
  then have dm: "?dm \<subseteq> board" unfolding discovered_mines_eq by blast
  have "\<And>s. s \<in> set (knowledge a) \<Longrightarrow> known_safes s \<inter> board = {}"
    using holds_on_all_safe [OF h] by (simp add: known_safes_def)
  then have ds: "?ds \<inter> board = {}" unfolding discovered_safes_eq by blast
  have em: "set (enum ?dm) = ?dm" by (rule set_order_set [OF assms(1) finite_discovered(1) [OF fc]])
  have es: "set (enum ?ds) = ?ds" by (rule set_order_set [OF assms(1) finite_discovered(2) [OF fc]])
  have "sound board (mark_mines (enum ?dm) a)"
    by (rule sound_mark_mines) (simp_all add: em dm assms(2))
  then have "sound board (mark_safes (enum ?ds) (mark_mines (enum ?dm) a))"
    by (intro sound_mark_safes) (simp_all add: es ds)
  then show ?thesis by (simp add: direct_def Let_def)
qed

lemma in_concat_if:
  "x \<in> set (concat (map (\<lambda>A. concat (map (\<lambda>B. if P A B then g A B else []) ys)) xs))
   \<Longrightarrow> \<exists>A \<in> set xs. \<exists>B \<in> set ys. P A B \<and> x \<in> set (g A B)"
  by (auto split: if_splits)

lemma sound_subset_resolution:
  assumes "set_order enum" and "sound board a"
  shows "sound board (subset_resolution enum a)"
proof -
  let ?ks = "knowledge a"
  let ?r = "resolve enum ?ks"
  let ?a = "a\<lparr>knowledge := ?ks @ new_knowledge ?r\<rparr>"
  have h: "\<And>s. s \<in> set ?ks \<Longrightarrow> holds_on board s" using assms(2) by (simp add: sound_def)
  have cand: "\<And>A B. A \<in> set ?ks \<Longrightarrow> B \<in> set ?ks \<Longrightarrow> resolvable A B \<Longrightarrow> holds_on board (candidate A B)"
    by (rule holds_on_candidate) (simp_all add: h resolvable_def)
  have en: "\<And>A B. A \<in> set ?ks \<Longrightarrow> B \<in> set ?ks \<Longrightarrow> resolvable A B
              \<Longrightarrow> set (enum (cells (candidate A B))) = cells (candidate A B)"
    using cand by (intro set_order_set [OF assms(1)]) (simp add: holds_on_def)
  have new: "\<forall>s \<in> set (new_knowledge ?r). holds_on board s"
  proof
    fix s assume "s \<in> set (new_knowledge ?r)"
    then obtain A B where "A \<in> set ?ks" "B \<in> set ?ks" "resolvable A B" "s = candidate A B"
      unfolding resolve_new_knowledge by (auto dest!: in_concat_if)
    then show "holds_on board s" using cand by simp
  qed
  have mi: "set (cells_to_mark_as_mines ?r) \<subseteq> board"
  proof
    fix x assume "x \<in> set (cells_to_mark_as_mines ?r)"
    then obtain A B where AB: "A \<in> set ?ks" "B \<in> set ?ks" "resolvable A B"
      and am: "all_mine (candidate A B)" and x: "x \<in> set (enum (cells (candidate A B)))"
      unfolding resolve_mines by (auto dest!: in_concat_if)
    have "cells (candidate A B) \<subseteq> board"
      using holds_on_all_mine [OF cand [OF AB]] am by (simp add: all_mine_def)
    then show "x \<in> board" using x en [OF AB] by blast
  qed
  have sa: "set (cells_to_mark_as_safe ?r) \<inter> board = {}"
  proof -
    have "x \<notin> board" if "x \<in> set (cells_to_mark_as_safe ?r)" for x
    proof -
      from that obtain A B where AB: "A \<in> set ?ks" "B \<in> set ?ks" "resolvable A B"
        and as: "all_safe (candidate A B)" and x: "x \<in> set (enum (cells (candidate A B)))"
        unfolding resolve_safe by (auto dest!: in_concat_if)
      have "cells (candidate A B) \<inter> board = {}"
        using holds_on_all_safe [OF cand [OF AB]] as by (simp add: all_safe_def)
      then show ?thesis using x en [OF AB] by blast
    qed
    then show ?thesis by blast
  qed
  have "sound board ?a" using assms(2) new by (auto simp: sound_def)
  then have "sound board (mark_mines (cells_to_mark_as_mines ?r) ?a)"
    by (intro sound_mark_mines mi)
  then have "sound board (mark_safes (cells_to_mark_as_safe ?r) (mark_mines (cells_to_mark_as_mines ?r) ?a))"
    by (intro sound_mark_safes sa)
  then show ?thesis by (simp add: subset_resolution_def Let_def)
qed

lemma sound_add_knowledge:
  assumes "set_order enum" and "sound board a" and "c \<notin> board"
    and "cnt = nearby_mines (height a) (width a) board c"
  shows "sound board (add_knowledge enum c cnt a)"
  unfolding add_knowledge_def
  by (intro sound_subset_resolution sound_direct sound_observed assms)

lemma run_size: "height (run enum obs a) = height a \<and> width (run enum obs a) = width a"
  unfolding run_def by (induction obs arbitrary: a) simp_all

lemma sound_run:
  assumes "set_order enum"
  shows "sound board a \<Longrightarrow> truthful (height a) (width a) board obs
         \<Longrightarrow> fst ` set obs \<inter> board = {} \<Longrightarrow> sound board (run enum obs a)"
proof (induction obs arbitrary: a)
  case Nil
  then show ?case by (simp add: run_def)
next
  case (Cons ob obs)
  let ?a = "add_knowledge enum (fst ob) (snd ob) a"
  have "sound board ?a"
    using Cons.prems by (intro sound_add_knowledge assms) (simp_all add: truthful_def)
  moreover have "truthful (height ?a) (width ?a) board obs"
    using Cons.prems(2) by (simp add: truthful_def)
  moreover have "fst ` set obs \<inter> board = {}"
    using Cons.prems(3) by simp
  ultimately have "sound board (run enum obs ?a)" by (rule Cons.IH)
  then show ?case by (simp add: run_def)
qed

lemma sound_init: "sound board (init h w)"
  by (simp add: sound_def init_def)


text \<open>
  Claim C4, as amended. In every state that the player reaches from its initial state by
  a sequence of \<open>add_knowledge\<close> calls whose counts are truthful for a fixed board and
  whose observed cells are free of mines on that board (as the docstring of the method
  asks: it is called for a safe cell), the safe set and the mine set are disjoint.
\<close>

theorem safes_mines_disjoint:
  assumes "set_order enum" and "truthful h w board obs" and "fst ` set obs \<inter> board = {}"
  shows "safes (run enum obs (init h w)) \<inter> mines (run enum obs (init h w)) = {}"
proof -
  have "truthful (height (init h w)) (width (init h w)) board obs"
    using assms(2) by (simp add: init_def)
  then have "sound board (run enum obs (init h w))"
    by (intro sound_run [OF assms(1)] sound_init assms(3))
  then show ?thesis unfolding sound_def by blast
qed

theorem safes_mines_disjoint_witness:
  "set_order sorted_list_of_set
   \<and> truthful 1 5 {(0, 2)} [((0, 1), 1), ((0, 3), 1), ((0, 0), 0)]
   \<and> fst ` set [((0, 1), 1), ((0, 3), 1), ((0, 0), 0 :: int)] \<inter> {(0, 2)} = ({} :: cell set)
   \<and> safes (run sorted_list_of_set [((0, 1), 1), ((0, 3), 1), ((0, 0), 0)] (init 1 5))
       \<inter> mines (run sorted_list_of_set [((0, 1), 1), ((0, 3), 1), ((0, 0), 0)] (init 1 5)) = {}"
proof -
  have h1: "set_order sorted_list_of_set" by (rule sorted_list_of_set_order)
  have h2: "truthful 1 5 {(0, 2)} [((0, 1), 1), ((0, 3), 1), ((0, 0), 0)]" by code_simp
  have h3: "fst ` set [((0, 1), 1), ((0, 3), 1), ((0, 0), 0 :: int)] \<inter> {(0, 2)} = ({} :: cell set)"
    by simp
  from safes_mines_disjoint [OF h1 h2 h3] h1 h2 h3 show ?thesis by blast
qed

text \<open>
  The claim as stated asks for truthful counts only. On a board of one row and two
  columns with a mine at (0, 1), the count 1 for (0, 0) and the count 0 for (0, 1) are
  the ones \<open>nearby_mines\<close> computes; the first call marks (0, 1) as a mine and the second
  call, which observes the mine itself, marks it safe.
\<close>

theorem safes_mines_disjoint_counterexample:
  "truthful 1 2 {(0, 1)} [((0, 0), 1), ((0, 1), 0)]
   \<and> nearby_mines 1 2 {(0, 1)} (0, 0) = 1 \<and> nearby_mines 1 2 {(0, 1)} (0, 1) = 0
   \<and> (0, 1) \<in> safes (run sorted_list_of_set [((0, 0), 1), ((0, 1), 0)] (init 1 2))
   \<and> (0, 1) \<in> mines (run sorted_list_of_set [((0, 0), 1), ((0, 1), 0)] (init 1 2))"
  by code_simp

end
